theory Spec2Isabelle
  imports Main "HOL-Library.Multiset" "HOL-Library.Word"
begin

section \<open>Iterator tuples (common/iterator.h)\<close>

text \<open>
  An iterator is a position in a sequence. The tuple of iterators that
  \<^verbatim>\<open>apply_deref_increment\<close> receives by reference is a list of iterators; the
  callable takes the list of the values read. Reading through an iterator that is not
  dereferenceable is undefined behaviour in C++ and is the result \<open>None\<close> here.
\<close>

record 'a iterator =
  seq :: "'a list"
  pos :: nat

text \<open>The expression \<^verbatim>\<open>*it++\<close>: the value at the old position, and the iterator advanced.\<close>

definition deref_postinc :: "'a iterator \<Rightarrow> ('a \<times> 'a iterator) option" where
  "deref_postinc it =
     (if pos it < length (seq it) then Some (seq it ! pos it, it\<lparr>pos := pos it + 1\<rparr>)
      else None)"

text \<open>
  \<^verbatim>\<open>internal::apply_deref_increment(f, iterators, index_sequence<I...>)\<close>: the pack
  expansion \<^verbatim>\<open>*std::get<I>(iterators)++...\<close> over the indices \<open>I\<close>, each acting on its
  own element of the tuple.
\<close>

fun deref_increment_pack ::
  "nat list \<Rightarrow> 'a iterator list \<Rightarrow> ('a list \<times> 'a iterator list) option" where
  "deref_increment_pack [] iterators = Some ([], iterators)"
| "deref_increment_pack (i # idxs) iterators =
     (if i < length iterators then
        (case deref_postinc (iterators ! i) of
           None \<Rightarrow> None
         | Some (v, it') \<Rightarrow>
             (case deref_increment_pack idxs (iterators[i := it']) of
                None \<Rightarrow> None
              | Some (vs, iterators') \<Rightarrow> Some (v # vs, iterators')))
      else None)"

definition apply_deref_increment_internal ::
  "('a list \<Rightarrow> 'r) \<Rightarrow> 'a iterator list \<Rightarrow> nat list \<Rightarrow> ('r \<times> 'a iterator list) option" where
  "apply_deref_increment_internal f iterators idxs =
     (case deref_increment_pack idxs iterators of
        None \<Rightarrow> None
      | Some (vs, iterators') \<Rightarrow> Some (f vs, iterators'))"

text \<open>
  \<^verbatim>\<open>apply_deref_increment(f, iterators)\<close>: the index sequence is
  \<^verbatim>\<open>make_index_sequence<sizeof...(Iterators)>\<close>, that is \<open>0, ..., size - 1\<close>.
\<close>

definition apply_deref_increment ::
  "('a list \<Rightarrow> 'r) \<Rightarrow> 'a iterator list \<Rightarrow> ('r \<times> 'a iterator list) option" where
  "apply_deref_increment f iterators =
     apply_deref_increment_internal f iterators [0..<length iterators]"


section \<open>The TBB map pattern (tbb/map.h)\<close>

text \<open>
  \<^verbatim>\<open>tbb::parallel_for(first, last, body)\<close> belongs to the TBB runtime: it invokes the body
  once for every index of the range \<open>[first, last)\<close>, in an order the runtime chooses. The
  order is the parameter \<open>sched\<close>; a list that is not an enumeration of the range is no
  run of the runtime, and a body that reads or writes out of range ends the run: both
  are the result \<open>None\<close>.
\<close>

fun run_body :: "(nat \<Rightarrow> 's \<Rightarrow> 's option) \<Rightarrow> nat list \<Rightarrow> 's \<Rightarrow> 's option" where
  "run_body body [] s = Some s"
| "run_body body (index # sched) s =
     (case body index s of None \<Rightarrow> None | Some s' \<Rightarrow> run_body body sched s')"

definition parallel_for ::
  "nat list \<Rightarrow> nat \<Rightarrow> nat \<Rightarrow> (nat \<Rightarrow> 's \<Rightarrow> 's option) \<Rightarrow> 's \<Rightarrow> 's option" where
  "parallel_for sched lo hi body s =
     (if mset sched = mset [lo..<hi] then run_body body sched s else None)"

text \<open>
  \<^verbatim>\<open>static_cast<std::size_t>(last - first)\<close> on a 64-bit platform: a negative difference
  wraps around.
\<close>

definition range_size :: "nat \<Rightarrow> nat \<Rightarrow> nat" where
  "range_size first last' = nat ((int last' - int first) mod 2 ^ 64)"

text \<open>
  The input sequence is the list \<open>inp\<close> with the iterators \<open>first\<close> and \<open>last\<close> as
  positions in it; the output sequence is the list \<open>out\<close> with \<open>first_out\<close> a position
  in it. The body of the lambda: \<^verbatim>\<open>*(first_out+index) = op(*(first+index))\<close>.
\<close>

definition map_body ::
  "'a list \<Rightarrow> nat \<Rightarrow> nat \<Rightarrow> ('a \<Rightarrow> 'b) \<Rightarrow> nat \<Rightarrow> 'b list \<Rightarrow> 'b list option" where
  "map_body inp first first_out op index out =
     (if first + index < length inp \<and> first_out + index < length out
      then Some (out[first_out + index := op (inp ! (first + index))])
      else None)"

definition map_tbb ::
  "nat list \<Rightarrow> 'a list \<Rightarrow> nat \<Rightarrow> nat \<Rightarrow> 'b list \<Rightarrow> nat \<Rightarrow> ('a \<Rightarrow> 'b) \<Rightarrow> 'b list option" where
  "map_tbb sched inp first last' out first_out op =
     parallel_for sched 0 (range_size first last') (map_body inp first first_out op) out"

text \<open>
  The variadic overload: \<^verbatim>\<open>*current = op(*(first+index), *(inputs+index)...)\<close>. Each
  additional input is a sequence with its first position; the operation takes the first
  value and the list of the others.
\<close>

fun deref_inputs :: "('a list \<times> nat) list \<Rightarrow> nat \<Rightarrow> 'a list option" where
  "deref_inputs [] index = Some []"
| "deref_inputs ((xs, f) # inputs) index =
     (if f + index < length xs then
        (case deref_inputs inputs index of
           None \<Rightarrow> None
         | Some vs \<Rightarrow> Some (xs ! (f + index) # vs))
      else None)"

definition map_body_variadic ::
  "'a list \<Rightarrow> nat \<Rightarrow> nat \<Rightarrow> ('a \<Rightarrow> 'a list \<Rightarrow> 'b) \<Rightarrow> ('a list \<times> nat) list \<Rightarrow>
   nat \<Rightarrow> 'b list \<Rightarrow> 'b list option" where
  "map_body_variadic inp first first_out op inputs index out =
     (if first + index < length inp \<and> first_out + index < length out then
        (case deref_inputs inputs index of
           None \<Rightarrow> None
         | Some vs \<Rightarrow> Some (out[first_out + index := op (inp ! (first + index)) vs]))
      else None)"

definition map_tbb_variadic ::
  "nat list \<Rightarrow> 'a list \<Rightarrow> nat \<Rightarrow> nat \<Rightarrow> 'b list \<Rightarrow> nat \<Rightarrow> ('a \<Rightarrow> 'a list \<Rightarrow> 'b) \<Rightarrow>
   ('a list \<times> nat) list \<Rightarrow> 'b list option" where
  "map_tbb_variadic sched inp first last' out first_out op inputs =
     parallel_for sched 0 (range_size first last')
       (map_body_variadic inp first first_out op inputs) out"


section \<open>The FastFlow execution policy (ff/parallel\_execution\_ff.h)\<close>

text \<open>
  The policy stores the concurrency degree (a C++ \<^verbatim>\<open>int\<close>, embedded in the integers: the
  class does no arithmetic on it) and the ordering flag; the members
  \<^verbatim>\<open>concurrency_degree_\<close> and \<^verbatim>\<open>ordering_\<close> are the fields \<open>concurrency_degree'\<close> and
  \<open>ordering'\<close>.
\<close>

record parallel_execution_ff =
  concurrency_degree' :: int
  ordering' :: bool

text \<open>The constructor \<^verbatim>\<open>parallel_execution_ff(int concurrency_degree, bool order)\<close>.\<close>

definition make_parallel_execution_ff :: "int \<Rightarrow> bool \<Rightarrow> parallel_execution_ff" where
  "make_parallel_execution_ff concurrency_degree order =
     \<lparr>concurrency_degree' = concurrency_degree, ordering' = order\<rparr>"

definition set_concurrency_degree :: "parallel_execution_ff \<Rightarrow> int \<Rightarrow> parallel_execution_ff" where
  "set_concurrency_degree ex degree = ex\<lparr>concurrency_degree' := degree\<rparr>"

definition concurrency_degree :: "parallel_execution_ff \<Rightarrow> int" where
  "concurrency_degree ex = concurrency_degree' ex"

definition enable_ordering :: "parallel_execution_ff \<Rightarrow> parallel_execution_ff" where
  "enable_ordering ex = ex\<lparr>ordering' := True\<rparr>"

definition disable_ordering :: "parallel_execution_ff \<Rightarrow> parallel_execution_ff" where
  "disable_ordering ex = ex\<lparr>ordering' := False\<rparr>"

definition is_ordered :: "parallel_execution_ff \<Rightarrow> bool" where
  "is_ordered ex = ordering' ex"

subsection \<open>Reduce\<close>





section \<open>Tagged items and the generators\<close>

text \<open>
  An item of a queue is the pair of an optional payload and a tag (a C++ \<^verbatim>\<open>long\<close>,
  embedded in the integers: the counters only count the items of the stream upwards from
  0). The generator callable is the stream of the values it returns: the values of the
  list \<open>xs\<close>, then the absent value.
\<close>

type_synonym 'a item = "'a option \<times> int"

text \<open>
  The generator loop of \<^verbatim>\<open>keep\<close> (native/stream\_filter.h, thread 0): every generated
  value, the absent one included, is pushed with the current \<open>order\<close>; after the absent
  value, \<open>concurrency_degree - 1\<close> items \<^verbatim>\<open>(item, -1)\<close> follow. The result is the
  sequence of the pushes onto \<^verbatim>\<open>generated_queue\<close>.
\<close>

fun keep_generator :: "int \<Rightarrow> 'a list \<Rightarrow> int \<Rightarrow> 'a item list" where
  "keep_generator degree [] order = (None, order) # replicate (nat (degree - 1)) (None, - 1)"
| "keep_generator degree (x # xs) order = (Some x, order) # keep_generator degree xs (order + 1)"

text \<open>
  The generator task of the OpenMP \<^verbatim>\<open>pipeline\<close> (omp/pipeline.h):
  \<^verbatim>\<open>output_queue.push(make_pair(item,order++)); if (!item) break;\<close>
\<close>

fun pipeline_generator :: "'a list \<Rightarrow> int \<Rightarrow> 'a item list" where
  "pipeline_generator [] order = [(None, order)]"
| "pipeline_generator (x # xs) order = (Some x, order) # pipeline_generator xs (order + 1)"


section \<open>The native stream filter (native/stream\_filter.h)\<close>

text \<open>
  \<^verbatim>\<open>keep\<close> runs three kinds of threads over two queues: thread 0 (the caller) generates
  the tagged items into \<^verbatim>\<open>generated_queue\<close>, \<open>concurrency_degree - 1\<close> tasks filter them
  into \<^verbatim>\<open>filtered_queue\<close>, and the consumer thread reorders them and calls
  \<^verbatim>\<open>consume_op\<close>. The threads are modelled by their steps on a shared state, one step for
  each access to a queue; a schedule (a list of threads) selects the interleaving. Of the
  execution policy \<^verbatim>\<open>keep\<close> reads the concurrency degree only (the parameter \<open>degree\<close>,
  a C++ \<^verbatim>\<open>int\<close> embedded in the integers); it never reads the ordering flag.

  Modelled from the spec: the queue class behind \<^verbatim>\<open>ex.make_queue\<close> belongs to the native
  execution policy, whose header is not among the sources. Following section 4.1 of the
  specification a queue is a FIFO list, \<open>pop\<close> blocks while the queue is empty (the thread
  has no step), and \<open>push\<close> appends without blocking.
\<close>

subsection \<open>The consumer thread\<close>

text \<open>
  \<^verbatim>\<open>std::remove_if\<close> over the buffer with the predicate
  \<^verbatim>\<open>[&order](auto & item) { bool res = item.second == order; if (res) order++; return res; }\<close>
  as libstdc++ and libc++ implement it: \<^verbatim>\<open>find_if\<close> looks for the first element the
  predicate accepts; from there on, every element the predicate rejects is move-assigned
  to the position \<open>result\<close> (\<^verbatim>\<open>*result = std::move(*first); ++result;\<close>). The elements
  from the returned position on are what the algorithm left there. A moved-from item keeps
  its tag and the engagement of its optional payload; \<open>mv\<close> gives the value a moved-from
  payload holds (the same value for a trivially copyable payload type as \<^verbatim>\<open>int\<close>).
\<close>

definition moved_from :: "('a \<Rightarrow> 'a) \<Rightarrow> 'a item \<Rightarrow> 'a item" where
  "moved_from mv item = (map_option mv (fst item), snd item)"

function find_if_pred :: "'a item list \<Rightarrow> nat \<Rightarrow> int \<Rightarrow> nat \<times> int" where
  "find_if_pred buf first order =
     (if first < length buf then
        (if snd (buf ! first) = order then (first, order + 1)
         else find_if_pred buf (first + 1) order)
      else (first, order))"
  by pat_completeness auto
termination
  by (relation "measure (\<lambda>(buf, first, order). length buf - first)") auto

function remove_if_loop ::
  "('a \<Rightarrow> 'a) \<Rightarrow> 'a item list \<Rightarrow> nat \<Rightarrow> nat \<Rightarrow> int \<Rightarrow> 'a item list \<times> nat \<times> int" where
  "remove_if_loop mv buf result first order =
     (if first < length buf then
        (if snd (buf ! first) = order then remove_if_loop mv buf result (first + 1) (order + 1)
         else remove_if_loop mv
                (buf[result := buf ! first, first := moved_from mv (buf ! first)])
                (result + 1) (first + 1) order)
      else (buf, result, order))"
  by pat_completeness auto
termination
  by (relation "measure (\<lambda>(mv, buf, result, first, order). length buf - first)") auto

definition remove_if ::
  "('a \<Rightarrow> 'a) \<Rightarrow> 'a item list \<Rightarrow> int \<Rightarrow> 'a item list \<times> nat \<times> int" where
  "remove_if mv buf order =
     (case find_if_pred buf 0 order of
        (first, order') \<Rightarrow>
          if first = length buf then (buf, first, order')
          else remove_if_loop mv buf first (first + 1) order')"

text \<open>
  \<^verbatim>\<open>for_each\<close> with \<^verbatim>\<open>if (item.first) { consume_op(*item.first); }\<close>: the calls it makes.
\<close>

fun for_each_consume :: "'a item list \<Rightarrow> 'a list" where
  "for_each_consume [] = []"
| "for_each_consume (item # items) =
     (case fst item of
        Some v \<Rightarrow> v # for_each_consume items
      | None \<Rightarrow> for_each_consume items)"

text \<open>The final loop: \<^verbatim>\<open>find_if\<close> for the current order, consume, erase, until none is found.\<close>

fun find_if_tag :: "'a item list \<Rightarrow> int \<Rightarrow> nat" where
  "find_if_tag [] order = 0"
| "find_if_tag (item # items) order =
     (if snd item = order then 0 else Suc (find_if_tag items order))"

definition erase :: "'b list \<Rightarrow> nat \<Rightarrow> 'b list" where
  "erase buf i = take i buf @ drop (Suc i) buf"

function final_drain :: "'a item list \<Rightarrow> int \<Rightarrow> 'a list \<Rightarrow> 'a item list \<times> int \<times> 'a list" where
  "final_drain buf order out =
     (let it_find = find_if_tag buf order in
      if it_find < length buf then
        final_drain (erase buf it_find) (order + 1)
          (case fst (buf ! it_find) of Some v \<Rightarrow> out @ [v] | None \<Rightarrow> out)
      else (buf, order, out))"
  by pat_completeness auto
termination
  by (relation "measure (\<lambda>(buf, order, out). length buf)") (auto simp: erase_def)

text \<open>
  The local variables of the consumer thread; \<open>consumed\<close> records the arguments of the
  calls of \<^verbatim>\<open>consume_op\<close> in the order of the calls, \<open>finished\<close> that the thread has
  reached its end.
\<close>

record 'a consumer =
  done_threads :: int
  item_buffer :: "'a item list"
  order :: int
  consumed :: "'a list"
  finished :: bool

text \<open>
  The search in the buffer for the next elements (the \<^verbatim>\<open>remove_if\<close>, the \<^verbatim>\<open>for_each\<close>
  over \<^verbatim>\<open>[itrm, end)\<close> and the \<^verbatim>\<open>erase\<close> of that range).
\<close>

definition search_buffer :: "('a \<Rightarrow> 'a) \<Rightarrow> 'a consumer \<Rightarrow> 'a consumer" where
  "search_buffer mv c =
     (case remove_if mv (item_buffer c) (order c) of
        (buf, itrm, order') \<Rightarrow>
          c\<lparr>item_buffer := take itrm buf,
            order := order',
            consumed := consumed c @ for_each_consume (drop itrm buf)\<rparr>)"

definition finish :: "'a consumer \<Rightarrow> 'a consumer" where
  "finish c =
     (case final_drain (item_buffer c) (order c) (consumed c) of
        (buf, order', out) \<Rightarrow>
          c\<lparr>item_buffer := buf, order := order', consumed := out, finished := True\<rparr>)"

text \<open>
  One pass of the consumer from a \<^verbatim>\<open>pop\<close> to the next: the test of the \<^verbatim>\<open>while\<close> loop on
  the item just popped, and its body. Leaving the loop (by the test or by \<^verbatim>\<open>break\<close>)
  runs the final loop and ends the thread.
\<close>

definition consumer_iteration ::
  "int \<Rightarrow> ('a \<Rightarrow> 'a) \<Rightarrow> 'a consumer \<Rightarrow> 'a item \<Rightarrow> 'a consumer" where
  "consumer_iteration degree mv c item =
     (if done_threads c \<noteq> degree - 1 then
        (if fst item = None \<and> snd item = - 1 then
           (let c1 = c\<lparr>done_threads := done_threads c + 1\<rparr> in
            if done_threads c1 = degree - 1 then finish c1
            else search_buffer mv c1)
         else
           search_buffer mv
             (if order c = snd item then
                c\<lparr>consumed := (case fst item of Some v \<Rightarrow> consumed c @ [v] | None \<Rightarrow> consumed c),
                  order := order c + 1\<rparr>
              else c\<lparr>item_buffer := item_buffer c @ [item]\<rparr>))
      else finish c)"

subsection \<open>The threads of keep\<close>

text \<open>
  A filter task is about to pop (\<open>Popping\<close>), holds the item it popped and is about to
  push (\<open>Holding\<close>), or has ended (\<open>Exited\<close>).
\<close>

datatype 'a task = Popping | Holding "'a item" | Exited

text \<open>
  The shared state: the pushes thread 0 still has to do, the two queues, the tasks and the
  consumer; \<open>pushed\<close> records every item pushed onto \<^verbatim>\<open>filtered_queue\<close>, in order.
\<close>

record 'a keep_state =
  pending :: "'a item list"
  generated_queue :: "'a item list"
  filtered_queue :: "'a item list"
  tasks :: "'a task list"
  consumer :: "'a consumer"
  pushed :: "'a item list"

datatype thread = Generator | Task nat | Consumer

definition generator_step :: "'a keep_state \<Rightarrow> 'a keep_state option" where
  "generator_step s =
     (case pending s of
        [] \<Rightarrow> None
      | item # rest \<Rightarrow>
          Some (s\<lparr>pending := rest, generated_queue := generated_queue s @ [item]\<rparr>))"

definition push_filtered :: "'a item \<Rightarrow> 'a keep_state \<Rightarrow> 'a keep_state" where
  "push_filtered item s =
     s\<lparr>filtered_queue := filtered_queue s @ [item], pushed := pushed s @ [item]\<rparr>"

text \<open>
  A task: \<^verbatim>\<open>pop\<close>; while the item has a payload, push the item or, when the predicate
  fails, \<^verbatim>\<open>make_pair(generated_type{}, item.second)\<close>, and \<^verbatim>\<open>pop\<close> again; at an item
  without payload push \<^verbatim>\<open>make_pair(item.first, -1)\<close> and end.
\<close>

definition task_step :: "('a \<Rightarrow> bool) \<Rightarrow> nat \<Rightarrow> 'a keep_state \<Rightarrow> 'a keep_state option" where
  "task_step predicate_op i s =
     (if i < length (tasks s) then
        (case tasks s ! i of
           Popping \<Rightarrow>
             (case generated_queue s of
                [] \<Rightarrow> None
              | item # rest \<Rightarrow>
                  Some (s\<lparr>generated_queue := rest, tasks := (tasks s)[i := Holding item]\<rparr>))
         | Holding item \<Rightarrow>
             (case fst item of
                Some v \<Rightarrow>
                  Some (push_filtered (if predicate_op v then item else (None, snd item))
                          (s\<lparr>tasks := (tasks s)[i := Popping]\<rparr>))
              | None \<Rightarrow>
                  Some (push_filtered (fst item, - 1) (s\<lparr>tasks := (tasks s)[i := Exited]\<rparr>)))
         | Exited \<Rightarrow> None)
      else None)"

definition consumer_step ::
  "int \<Rightarrow> ('a \<Rightarrow> 'a) \<Rightarrow> 'a keep_state \<Rightarrow> 'a keep_state option" where
  "consumer_step degree mv s =
     (if finished (consumer s) then None
      else
        (case filtered_queue s of
           [] \<Rightarrow> None
         | item # rest \<Rightarrow>
             Some (s\<lparr>filtered_queue := rest,
                     consumer := consumer_iteration degree mv (consumer s) item\<rparr>)))"

fun thread_step ::
  "int \<Rightarrow> ('a \<Rightarrow> 'a) \<Rightarrow> ('a \<Rightarrow> bool) \<Rightarrow> thread \<Rightarrow> 'a keep_state \<Rightarrow> 'a keep_state option" where
  "thread_step degree mv predicate_op Generator s = generator_step s"
| "thread_step degree mv predicate_op (Task i) s = task_step predicate_op i s"
| "thread_step degree mv predicate_op Consumer s = consumer_step degree mv s"

fun run ::
  "int \<Rightarrow> ('a \<Rightarrow> 'a) \<Rightarrow> ('a \<Rightarrow> bool) \<Rightarrow> thread list \<Rightarrow> 'a keep_state \<Rightarrow> 'a keep_state option" where
  "run degree mv predicate_op [] s = Some s"
| "run degree mv predicate_op (t # sched) s =
     (case thread_step degree mv predicate_op t s of
        None \<Rightarrow> None
      | Some s' \<Rightarrow> run degree mv predicate_op sched s')"

text \<open>
  The state in which \<^verbatim>\<open>keep\<close> starts its threads: \<open>concurrency_degree - 1\<close> tasks (none
  when the degree is below 2), the consumer with its initial locals, and thread 0 with
  the pushes of its generator loop before it.
\<close>

definition keep_init :: "int \<Rightarrow> 'a list \<Rightarrow> 'a keep_state" where
  "keep_init degree xs =
     \<lparr>pending = keep_generator degree xs 0,
      generated_queue = [],
      filtered_queue = [],
      tasks = replicate (nat (degree - 1)) Popping,
      consumer = \<lparr>done_threads = 0, item_buffer = [], order = 0, consumed = [], finished = False\<rparr>,
      pushed = []\<rparr>"

text \<open>\<^verbatim>\<open>keep\<close> returns when thread 0 has joined every task and the consumer.\<close>

definition keep_returned :: "'a keep_state \<Rightarrow> bool" where
  "keep_returned s =
     (pending s = [] \<and> list_all (\<lambda>w. w = Exited) (tasks s) \<and> finished (consumer s))"

text \<open>
  \<^verbatim>\<open>keep\<close> under a schedule: the calls of \<^verbatim>\<open>consume_op\<close> it has made when it returns;
  \<open>None\<close> when the schedule is not a complete run (it schedules a thread that is blocked
  or has ended, or stops before \<^verbatim>\<open>keep\<close> returns).
\<close>

definition keep ::
  "thread list \<Rightarrow> int \<Rightarrow> ('a \<Rightarrow> 'a) \<Rightarrow> 'a list \<Rightarrow> ('a \<Rightarrow> bool) \<Rightarrow> 'a list option" where
  "keep sched degree mv generate_op predicate_op =
     (case run degree mv predicate_op sched (keep_init degree generate_op) of
        None \<Rightarrow> None
      | Some s \<Rightarrow> if keep_returned s then Some (consumed (consumer s)) else None)"

text \<open>\<^verbatim>\<open>discard\<close> calls \<^verbatim>\<open>keep\<close> with the predicate \<^verbatim>\<open>[&](auto val) { return !predicate_op(val); }\<close>.\<close>

definition discard ::
  "thread list \<Rightarrow> int \<Rightarrow> ('a \<Rightarrow> 'a) \<Rightarrow> 'a list \<Rightarrow> ('a \<Rightarrow> bool) \<Rightarrow> 'a list option" where
  "discard sched degree mv generate_op predicate_op =
     keep sched degree mv generate_op (\<lambda>val. \<not> predicate_op val)"


subsection \<open>The termination protocol of keep\<close>

text \<open>
  The end-of-stream item of \<^verbatim>\<open>filtered_queue\<close>, as the consumer tests it
  (\<^verbatim>\<open>!item.first && item.second == -1\<close>); an item without payload, as the tasks test it
  (\<^verbatim>\<open>while (item.first)\<close>).
\<close>

definition terminal :: "'a item \<Rightarrow> bool" where
  "terminal item = (fst item = None \<and> snd item = - 1)"

definition absent :: "'a item \<Rightarrow> bool" where
  "absent item = (fst item = None)"

fun holding :: "'a task \<Rightarrow> bool" where
  "holding (Holding item) = True"
| "holding w = False"

text \<open>
  The steps left in a state: every item still to be generated takes four steps (its
  push, a pop, a push, a pop), every item of \<^verbatim>\<open>generated_queue\<close> three, every item held
  by a task two and every item of \<^verbatim>\<open>filtered_queue\<close> one.
\<close>

definition work :: "'a keep_state \<Rightarrow> nat" where
  "work s =
     4 * length (pending s) + 3 * length (generated_queue s) +
     2 * length (filter holding (tasks s)) + length (filtered_queue s)"

text \<open>
  The invariant of the runs of \<^verbatim>\<open>keep\<close>. An item with a payload is never tagged -1; a
  task counts as running until it has popped an item without payload; there is always one
  item without payload more before the tasks than there are running tasks; the
  end-of-stream items pushed onto \<^verbatim>\<open>filtered_queue\<close> are as many as the tasks that have
  ended, and the consumer has counted those it has popped.
\<close>

definition tagged :: "'a item \<Rightarrow> bool" where
  "tagged item = (fst item = None \<or> snd item \<noteq> - 1)"

fun held_tagged :: "'a task \<Rightarrow> bool" where
  "held_tagged (Holding item) = tagged item"
| "held_tagged w = True"

fun running :: "'a task \<Rightarrow> bool" where
  "running Popping = True"
| "running (Holding item) = (fst item \<noteq> None)"
| "running Exited = False"

definition keep_inv :: "int \<Rightarrow> 'a keep_state \<Rightarrow> bool" where
  "keep_inv degree s =
     (length (tasks s) = nat (degree - 1) \<and>
      list_all tagged (pending s @ generated_queue s) \<and>
      list_all held_tagged (tasks s) \<and>
      length (filter terminal (pushed s)) = length (filter (\<lambda>w. w = Exited) (tasks s)) \<and>
      length (filter absent (pending s @ generated_queue s)) =
        Suc (length (filter running (tasks s))) \<and>
      done_threads (consumer s) + int (length (filter terminal (filtered_queue s))) =
        int (length (filter (\<lambda>w. w = Exited) (tasks s))) \<and>
      (finished (consumer s) \<longleftrightarrow> done_threads (consumer s) = degree - 1))"


text \<open>
  The invariant of the queues. \<^verbatim>\<open>generated_queue\<close>, continued by the pushes thread 0 still
  has to do, holds its items without payload behind those with a payload; once a task has
  popped an item without payload only such items are left there. When every task has ended
  the last item of \<^verbatim>\<open>filtered_queue\<close>, if any, is an end-of-stream item; when the consumer
  has ended, every task has ended and \<^verbatim>\<open>filtered_queue\<close> is empty.
\<close>

fun absent_suffix :: "'a item list \<Rightarrow> bool" where
  "absent_suffix [] = True"
| "absent_suffix (item # items) =
     (if absent item then list_all absent items else absent_suffix items)"

definition keep_inv_queues :: "'a keep_state \<Rightarrow> bool" where
  "keep_inv_queues s =
     (absent_suffix (generated_queue s @ pending s) \<and>
      (list_all running (tasks s) \<or> list_all absent (generated_queue s @ pending s)) \<and>
      (filtered_queue s = [] \<or> \<not> list_all (\<lambda>w. w = Exited) (tasks s) \<or>
         terminal (last (filtered_queue s))) \<and>
      (\<not> finished (consumer s) \<or>
         (list_all (\<lambda>w. w = Exited) (tasks s) \<and> filtered_queue s = [])))"

subsection \<open>A schedule with overtaking\<close>

text \<open>
  A complete run of \<^verbatim>\<open>keep\<close> with concurrency degree 4 (three tasks) on a stream of four
  values. Thread 0 generates everything; task 0 pops the item tagged 0 and is slow; task 1
  pops and pushes the item tagged 1 and pops the item tagged 2; task 2 pops and pushes the
  item tagged 3; only then task 0 pushes the item tagged 0 and task 1 the item tagged 2:
  the items reach \<^verbatim>\<open>filtered_queue\<close> in the tag order 1, 3, 0, 2. Then every task pops an
  item without payload, pushes its end-of-stream item and ends, and the consumer pops the
  seven items of \<^verbatim>\<open>filtered_queue\<close>.
\<close>

definition overtaking_schedule :: "thread list" where
  "overtaking_schedule =
     replicate 8 Generator @
     [Task 0, Task 1, Task 1, Task 1, Task 2, Task 2, Task 0, Task 1,
      Task 0, Task 0, Task 1, Task 1, Task 2, Task 2] @
     replicate 7 Consumer"


section \<open>The last stage of the OpenMP pipeline (omp/pipeline.h)\<close>

text \<open>
  \<^verbatim>\<open>pipeline_impl(ex, input_queue, consume_op)\<close>, the last stage. The queue is the list of
  the items that \<^verbatim>\<open>pop\<close> returns, in order; a \<^verbatim>\<open>pop\<close> from the exhausted list blocks for
  ever. The state of the ordered branch is the vector \<^verbatim>\<open>elements\<close>, the counter
  \<^verbatim>\<open>current\<close> and the calls of \<^verbatim>\<open>consume_op\<close> made so far. The result \<open>None\<close> stands for a
  stage that does not return (a blocked \<^verbatim>\<open>pop\<close>, a final loop that spins for ever) or that
  dereferences an empty optional.

  The \<^verbatim>\<open>for\<close> loop over \<^verbatim>\<open>elements\<close>: at the first element tagged \<^verbatim>\<open>current\<close> it calls
  \<^verbatim>\<open>consume_op(*it->first)\<close>, erases the element, increments \<^verbatim>\<open>current\<close> and breaks.
\<close>

definition pipeline_scan ::
  "'a item list \<Rightarrow> int \<Rightarrow> 'a list \<Rightarrow> ('a item list \<times> int \<times> 'a list) option" where
  "pipeline_scan elements current out =
     (let it = find_if_tag elements current in
      if it < length elements then
        (case fst (elements ! it) of
           None \<Rightarrow> None
         | Some v \<Rightarrow> Some (erase elements it, current + 1, out @ [v]))
      else Some (elements, current, out))"









section \<open>The farm stage of the OpenMP pipeline (omp/pipeline.h)\<close>

text \<open>
  The tasks of \<^verbatim>\<open>pipeline_impl\<close> for a farm stage, by their steps on the two queues and
  on the atomic counter \<^verbatim>\<open>done_threads\<close>. A task is about to pop, holds an item with a
  payload that it is about to transform and push, holds the item without payload that it
  is about to push back onto the input queue, is about to increment the counter, is
  about to read the counter and compare it with the concurrency degree, or has ended. The
  increment \<^verbatim>\<open>done_threads++\<close> and the read in \<^verbatim>\<open>done_threads==...concurrency_degree()\<close> are
  two operations on the atomic.
\<close>

datatype 'a farm_task =
  Farm_Popping | Farm_Holding "'a item" | Farm_Pushing_Back "'a item" |
  Farm_Counting | Farm_Testing | Farm_Exited

record ('a, 'b) farm_state =
  farm_input :: "'a item list"
  farm_output :: "'b item list"
  farm_done_threads :: int
  farm_tasks :: "'a farm_task list"

definition farm_task_step ::
  "int \<Rightarrow> ('a \<Rightarrow> 'b) \<Rightarrow> nat \<Rightarrow> ('a, 'b) farm_state \<Rightarrow> ('a, 'b) farm_state option" where
  "farm_task_step degree task_op i s =
     (if i < length (farm_tasks s) then
        (case farm_tasks s ! i of
           Farm_Popping \<Rightarrow>
             (case farm_input s of
                [] \<Rightarrow> None
              | item # rest \<Rightarrow>
                  Some (s\<lparr>farm_input := rest,
                          farm_tasks := (farm_tasks s)
                            [i := (if fst item = None then Farm_Pushing_Back item
                                   else Farm_Holding item)]\<rparr>))
         | Farm_Holding item \<Rightarrow>
             Some (s\<lparr>farm_output := farm_output s @ [(map_option task_op (fst item), snd item)],
                     farm_tasks := (farm_tasks s)[i := Farm_Popping]\<rparr>)
         | Farm_Pushing_Back item \<Rightarrow>
             Some (s\<lparr>farm_input := farm_input s @ [item],
                     farm_tasks := (farm_tasks s)[i := Farm_Counting]\<rparr>)
         | Farm_Counting \<Rightarrow>
             Some (s\<lparr>farm_done_threads := farm_done_threads s + 1,
                     farm_tasks := (farm_tasks s)[i := Farm_Testing]\<rparr>)
         | Farm_Testing \<Rightarrow>
             Some (if farm_done_threads s = degree
                   then s\<lparr>farm_output := farm_output s @ [(None, - 1)],
                          farm_tasks := (farm_tasks s)[i := Farm_Exited]\<rparr>
                   else s\<lparr>farm_tasks := (farm_tasks s)[i := Farm_Exited]\<rparr>)
         | Farm_Exited \<Rightarrow> None)
      else None)"

fun farm_run ::
  "int \<Rightarrow> ('a \<Rightarrow> 'b) \<Rightarrow> nat list \<Rightarrow> ('a, 'b) farm_state \<Rightarrow> ('a, 'b) farm_state option" where
  "farm_run degree task_op [] s = Some s"
| "farm_run degree task_op (i # sched) s =
     (case farm_task_step degree task_op i s of
        None \<Rightarrow> None
      | Some s' \<Rightarrow> farm_run degree task_op sched s')"

text \<open>The farm stage started on an input queue, with \<open>concurrency_degree\<close> tasks.\<close>

definition farm_init :: "int \<Rightarrow> 'a item list \<Rightarrow> ('a, 'b) farm_state" where
  "farm_init degree input_items =
     \<lparr>farm_input = input_items, farm_output = [], farm_done_threads = 0,
      farm_tasks = replicate (nat degree) Farm_Popping\<rparr>"


section \<open>Theorems\<close>

subsection \<open>Iterator tuples\<close>

lemma deref_increment_pack_upt:
  "k \<le> length its \<Longrightarrow> \<forall>it\<in>set (drop k its). pos it < length (seq it) \<Longrightarrow>
   deref_increment_pack [k..<length its] its =
     Some (map (\<lambda>it. seq it ! pos it) (drop k its),
           take k its @ map (\<lambda>it. it\<lparr>pos := pos it + 1\<rparr>) (drop k its))"
proof (induction "length its - k" arbitrary: k its)
  case 0
  then show ?case by simp
next
  case (Suc n)
  then have k: "k < length its" by simp
  let ?it' = "(its ! k)\<lparr>pos := pos (its ! k) + 1\<rparr>"
  let ?its' = "its[k := ?it']"
  have d: "drop k its = its ! k # drop (Suc k) its"
    using k by (simp add: Cons_nth_drop_Suc)
  have inr: "pos (its ! k) < length (seq (its ! k))"
    using Suc.prems(2) d by simp
  have len: "length ?its' = length its" by simp
  have dr: "drop (Suc k) ?its' = drop (Suc k) its" by simp
  have tk: "take (Suc k) ?its' = take k its @ [?it']"
    using k by (simp add: take_Suc_conv_app_nth)
  have IH: "deref_increment_pack [Suc k..<length ?its'] ?its' =
     Some (map (\<lambda>it. seq it ! pos it) (drop (Suc k) ?its'),
           take (Suc k) ?its' @ map (\<lambda>it. it\<lparr>pos := pos it + 1\<rparr>) (drop (Suc k) ?its'))"
  proof (rule Suc.hyps(1))
    show "n = length ?its' - Suc k" using Suc.hyps(2) by simp
    show "Suc k \<le> length ?its'" using k by simp
    show "\<forall>it\<in>set (drop (Suc k) ?its'). pos it < length (seq it)"
      using Suc.prems(2) d dr by simp
  qed
  have "[k..<length its] = k # [Suc k..<length its]"
    using k by (simp add: upt_conv_Cons)
  then show ?case
    using k inr IH d tk by (simp add: deref_postinc_def)
qed

text \<open>
  Claim C9. \<^verbatim>\<open>apply_deref_increment(f, iterators)\<close> returns the result of \<open>f\<close> on the
  values the iterators of the tuple referenced before the call, and afterwards every
  iterator of the tuple is advanced by exactly one position (all iterators being
  dereferenceable, as the C++ code requires).
\<close>

theorem apply_deref_increment_spec:
  assumes "\<forall>it\<in>set iterators. pos it < length (seq it)"
  shows "apply_deref_increment f iterators =
     Some (f (map (\<lambda>it. seq it ! pos it) iterators),
           map (\<lambda>it. it\<lparr>pos := pos it + 1\<rparr>) iterators)"
  using deref_increment_pack_upt [of 0 iterators] assms
  by (simp add: apply_deref_increment_def apply_deref_increment_internal_def)

theorem apply_deref_increment_spec_witness:
  "apply_deref_increment (\<lambda>vs. sum_list vs)
     [\<lparr>seq = [10, 20, 30 :: int], pos = 0\<rparr>, \<lparr>seq = [1, 2], pos = 1\<rparr>] =
   Some (12, [\<lparr>seq = [10, 20, 30], pos = 1\<rparr>, \<lparr>seq = [1, 2], pos = 2\<rparr>])"
  using apply_deref_increment_spec [of "[\<lparr>seq = [10, 20, 30 :: int], pos = 0\<rparr>, \<lparr>seq = [1, 2], pos = 1\<rparr>]" "\<lambda>vs. sum_list vs"]
  by simp


subsection \<open>The TBB map pattern\<close>

lemma range_size_eq:
  assumes "first \<le> last'" and "last' < 2 ^ 64"
  shows "range_size first last' = last' - first"
proof -
  have 1: "int last' - int first = int (last' - first)" using assms(1) by (simp add: of_nat_diff)
  have "last' - first < 2 ^ 64" using assms(2) by (rule less_imp_diff_less)
  then have "int (last' - first) < int (2 ^ 64)" by (rule iffD2 [OF of_nat_less_iff])
  then have 2: "int (last' - first) < 2 ^ 64" by (simp only: of_nat_power of_nat_numeral)
  have "0 \<le> int (last' - first)" by (rule of_nat_0_le_iff)
  then have "int (last' - first) mod 2 ^ 64 = int (last' - first)" using 2 by (rule mod_pos_pos_trivial)
  then show ?thesis unfolding range_size_def 1 by (simp only: nat_int)
qed

lemma run_body_fold:
  "(\<And>i s. i \<in> set sched \<Longrightarrow> length s = n \<Longrightarrow> body i s = Some (s[g + i := w i])) \<Longrightarrow>
   length s = n \<Longrightarrow>
   run_body body sched s = Some (fold (\<lambda>i s. s[g + i := w i]) sched s)"
  by (induction sched arbitrary: s) simp_all

lemma fold_update_length:
  "length (fold (\<lambda>i s. s[g + i := w i]) sched (s::'b list)) = length s"
  by (induction sched arbitrary: s) simp_all

lemma fold_update_nth:
  "j < length s \<Longrightarrow>
   fold (\<lambda>i s. s[g + i := w i]) sched (s::'b list) ! j =
     (if g \<le> j \<and> j - g \<in> set sched then w (j - g) else s ! j)"
proof (induction sched arbitrary: s)
  case Nil
  then show ?case by simp
next
  case (Cons i sched)
  have "j < length (s[g + i := w i])" using Cons.prems by simp
  from Cons.IH [OF this] show ?case
    using Cons.prems by (auto simp: nth_list_update)
qed

lemma deref_inputs_map:
  "\<forall>(xs, f) \<in> set inputs. f + index < length xs \<Longrightarrow>
   deref_inputs inputs index = Some (map (\<lambda>(xs, f). xs ! (f + index)) inputs)"
  by (induction inputs index rule: deref_inputs.induct) auto

lemma set_sched:
  "mset sched = mset [0..<n] \<Longrightarrow> set sched = {0..<n}"
  by (metis atLeastLessThan_upt set_mset_mset)

text \<open>
  Claim C10. For every schedule of the runtime, the TBB map (both overloads) writes, for
  every \<open>i\<close> with \<open>0 \<le> i < last - first\<close>, the value of the operation on the \<open>i\<close>-th
  input element(s) into position \<open>first_out + i\<close>, leaves every output position outside
  \<open>[first_out, first_out + (last - first))\<close> as it was, and for \<open>last = first\<close> leaves the
  output unchanged.
\<close>

theorem map_tbb_spec:
  assumes "first \<le> last'" and "last' \<le> length inp" and "length inp < 2 ^ 64"
    and "first_out + (last' - first) \<le> length out"
    and "\<forall>(xs, f) \<in> set inputs. f + (last' - first) \<le> length xs"
    and "mset sched = mset [0..<last' - first]"
  shows "(\<exists>out'. map_tbb sched inp first last' out first_out op = Some out' \<and>
            length out' = length out \<and>
            (\<forall>i < last' - first. out' ! (first_out + i) = op (inp ! (first + i))) \<and>
            (\<forall>j < length out. j < first_out \<or> first_out + (last' - first) \<le> j \<longrightarrow>
                 out' ! j = out ! j) \<and>
            (last' = first \<longrightarrow> out' = out)) \<and>
         (\<exists>out'. map_tbb_variadic sched inp first last' out first_out opv inputs = Some out' \<and>
            length out' = length out \<and>
            (\<forall>i < last' - first. out' ! (first_out + i) =
                 opv (inp ! (first + i)) (map (\<lambda>(xs, f). xs ! (f + i)) inputs)) \<and>
            (\<forall>j < length out. j < first_out \<or> first_out + (last' - first) \<le> j \<longrightarrow>
                 out' ! j = out ! j) \<and>
            (last' = first \<longrightarrow> out' = out))"
proof -
  let ?n = "last' - first"
  have rs: "range_size first last' = ?n"
  proof (rule range_size_eq [OF assms(1)])
    show "last' < 2 ^ 64" using assms(2,3) by (rule le_less_trans)
  qed
  have ss: "set sched = {0..<?n}" using assms(6) by (rule set_sched)
  have unchanged: "last' = first \<Longrightarrow> fold (\<lambda>i s. s[first_out + i := w i]) sched out = out" for w :: "nat \<Rightarrow> 'b"
    using ss by simp
  have char: "length (fold (\<lambda>i s. s[first_out + i := w i]) sched out) = length out \<and>
      (\<forall>i < ?n. fold (\<lambda>i s. s[first_out + i := w i]) sched out ! (first_out + i) = w i) \<and>
      (\<forall>j < length out. j < first_out \<or> first_out + ?n \<le> j \<longrightarrow>
           fold (\<lambda>i s. s[first_out + i := w i]) sched out ! j = out ! j)" for w :: "nat \<Rightarrow> 'b"
    using assms(4) ss by (auto simp: fold_update_length fold_update_nth)
  have b1: "map_body inp first first_out op i s = Some (s[first_out + i := op (inp ! (first + i))])"
    if "i \<in> set sched" "length s = length out" for i s
    using that assms(1,2,4) ss by (auto simp: map_body_def)
  have "run_body (map_body inp first first_out op) sched out =
      Some (fold (\<lambda>i s. s[first_out + i := op (inp ! (first + i))]) sched out)"
    by (rule run_body_fold [where n = "length out"]) (simp_all add: b1)
  then have r1: "map_tbb sched inp first last' out first_out op =
      Some (fold (\<lambda>i s. s[first_out + i := op (inp ! (first + i))]) sched out)"
    unfolding map_tbb_def parallel_for_def rs using assms(6) by simp
  have b2: "map_body_variadic inp first first_out opv inputs i s =
      Some (s[first_out + i := opv (inp ! (first + i)) (map (\<lambda>(xs, f). xs ! (f + i)) inputs)])"
    if "i \<in> set sched" "length s = length out" for i s
  proof -
    have "i < ?n" using that ss by simp
    then have "\<forall>(xs, f) \<in> set inputs. f + i < length xs" using assms(5) by fastforce
    then have "deref_inputs inputs i = Some (map (\<lambda>(xs, f). xs ! (f + i)) inputs)"
      by (rule deref_inputs_map)
    then show ?thesis
      using that \<open>i < ?n\<close> assms(1,2,4) by (auto simp: map_body_variadic_def)
  qed
  have "run_body (map_body_variadic inp first first_out opv inputs) sched out =
      Some (fold (\<lambda>i s. s[first_out + i :=
          opv (inp ! (first + i)) (map (\<lambda>(xs, f). xs ! (f + i)) inputs)]) sched out)"
    by (rule run_body_fold [where n = "length out"]) (simp_all add: b2)
  then have r2: "map_tbb_variadic sched inp first last' out first_out opv inputs =
      Some (fold (\<lambda>i s. s[first_out + i :=
          opv (inp ! (first + i)) (map (\<lambda>(xs, f). xs ! (f + i)) inputs)]) sched out)"
    unfolding map_tbb_variadic_def parallel_for_def rs using assms(6) by simp
  let ?w1 = "\<lambda>i. op (inp ! (first + i))"
  let ?w2 = "\<lambda>i. opv (inp ! (first + i)) (map (\<lambda>(xs, f). xs ! (f + i)) inputs)"
  let ?F1 = "fold (\<lambda>i s. s[first_out + i := ?w1 i]) sched out"
  let ?F2 = "fold (\<lambda>i s. s[first_out + i := ?w2 i]) sched out"
  have c1: "length ?F1 = length out \<and> (\<forall>i < ?n. ?F1 ! (first_out + i) = ?w1 i) \<and>
      (\<forall>j < length out. j < first_out \<or> first_out + ?n \<le> j \<longrightarrow> ?F1 ! j = out ! j) \<and>
      (last' = first \<longrightarrow> ?F1 = out)"
    using char [of ?w1] unchanged [of ?w1] by blast
  have c2: "length ?F2 = length out \<and> (\<forall>i < ?n. ?F2 ! (first_out + i) = ?w2 i) \<and>
      (\<forall>j < length out. j < first_out \<or> first_out + ?n \<le> j \<longrightarrow> ?F2 ! j = out ! j) \<and>
      (last' = first \<longrightarrow> ?F2 = out)"
    using char [of ?w2] unchanged [of ?w2] by blast
  show ?thesis
  proof (rule conjI)
    show "\<exists>out'. map_tbb sched inp first last' out first_out op = Some out' \<and>
            length out' = length out \<and>
            (\<forall>i < last' - first. out' ! (first_out + i) = op (inp ! (first + i))) \<and>
            (\<forall>j < length out. j < first_out \<or> first_out + (last' - first) \<le> j \<longrightarrow>
                 out' ! j = out ! j) \<and>
            (last' = first \<longrightarrow> out' = out)"
      using r1 c1 by blast
    show "\<exists>out'. map_tbb_variadic sched inp first last' out first_out opv inputs = Some out' \<and>
            length out' = length out \<and>
            (\<forall>i < last' - first. out' ! (first_out + i) =
                 opv (inp ! (first + i)) (map (\<lambda>(xs, f). xs ! (f + i)) inputs)) \<and>
            (\<forall>j < length out. j < first_out \<or> first_out + (last' - first) \<le> j \<longrightarrow>
                 out' ! j = out ! j) \<and>
            (last' = first \<longrightarrow> out' = out)"
      using r2 c2 by blast
  qed
qed

theorem map_tbb_spec_witness:
  "map_tbb [2, 0, 1] [1, 2, 3, 4 :: int] 1 4 [0, 0, 0, 0, 0 :: int] 1 (\<lambda>x. 10 * x) =
     Some [0, 20, 30, 40, 0] \<and>
   map_tbb_variadic [2, 0, 1] [1, 2, 3, 4 :: int] 1 4 [0, 0, 0, 0, 0 :: int] 1
     (\<lambda>x vs. x + sum_list vs) [([5, 6, 7], 0)] = Some [0, 7, 9, 11, 0]"
proof -
  have m: "mset [2, 0, 1::nat] = mset [0..<4 - 1]" by (simp add: upt_conv_Cons)
  have "range_size 1 4 = 3" by (simp add: range_size_def)
  then have "map_tbb [2, 0, 1] [1, 2, 3, 4 :: int] 1 4 [0, 0, 0, 0, 0 :: int] 1 (\<lambda>x. 10 * x) =
     Some [0, 20, 30, 40, 0] \<and>
   map_tbb_variadic [2, 0, 1] [1, 2, 3, 4 :: int] 1 4 [0, 0, 0, 0, 0 :: int] 1
     (\<lambda>x vs. x + sum_list vs) [([5, 6, 7], 0)] = Some [0, 7, 9, 11, 0]"
    using m by (simp add: map_tbb_def map_tbb_variadic_def parallel_for_def map_body_def
        map_body_variadic_def)
  moreover note map_tbb_spec [of 1 4 "[1, 2, 3, 4 :: int]" 1 "[0, 0, 0, 0, 0 :: int]"
      "[([5, 6, 7], 0)]" "[2, 0, 1]" "\<lambda>x. 10 * x" "\<lambda>x vs. x + sum_list vs"]
  ultimately show ?thesis by simp
qed


subsection \<open>Reduce\<close>



















subsection \<open>Generators\<close>

lemma keep_generator_eq:
  "keep_generator degree xs k =
     zip (map Some xs) (map (\<lambda>i. k + int i) [0..<length xs]) @
     (None, k + int (length xs)) # replicate (nat (degree - 1)) (None, - 1)"
proof (induction xs arbitrary: k)
  case Nil
  then show ?case by simp
next
  case (Cons x xs)
  have "map (\<lambda>i. k + int i) [0..<length (x # xs)] =
      k # map (\<lambda>i. (k + 1) + int i) [0..<length xs]"
    by (simp add: upt_conv_Cons map_Suc_upt [symmetric] del: upt_Suc)
  then show ?case using Cons.IH [of "k + 1"] by simp
qed

lemma pipeline_generator_eq:
  "pipeline_generator xs k =
     zip (map Some xs) (map (\<lambda>i. k + int i) [0..<length xs]) @
     [(None, k + int (length xs))]"
proof (induction xs arbitrary: k)
  case Nil
  then show ?case by simp
next
  case (Cons x xs)
  have "map (\<lambda>i. k + int i) [0..<length (x # xs)] =
      k # map (\<lambda>i. (k + 1) + int i) [0..<length xs]"
    by (simp add: upt_conv_Cons map_Suc_upt [symmetric] del: upt_Suc)
  then show ?case using Cons.IH [of "k + 1"] by simp
qed


text \<open>
  Claim C5 (amended). The generator tags the values it generates with 0, 1, 2, ... in
  order, the absent value that ends the stream included: that item carries the tag \<open>N\<close>
  (the number of values), not -1. The generator of \<^verbatim>\<open>keep\<close> then appends
  \<open>concurrency_degree - 1\<close> items without payload tagged -1; the generator of the OpenMP
  pipeline appends nothing. Hence the tags of the items with a payload are strictly
  increasing from 0 and never reused, and an item tagged -1 has no payload.
\<close>

theorem generator_tags:
  "keep_generator degree xs 0 =
     zip (map Some xs) (map int [0..<length xs]) @
     (None, int (length xs)) # replicate (nat (degree - 1)) (None, - 1) \<and>
   pipeline_generator xs 0 =
     zip (map Some xs) (map int [0..<length xs]) @ [(None, int (length xs))] \<and>
   (\<forall>item \<in> set (keep_generator degree xs 0) \<union> set (pipeline_generator xs 0).
      fst item \<noteq> None \<longrightarrow> 0 \<le> snd item)"
proof -
  have k: "keep_generator degree xs 0 =
     zip (map Some xs) (map int [0..<length xs]) @
     (None, int (length xs)) # replicate (nat (degree - 1)) (None, - 1)"
    using keep_generator_eq [of degree xs 0] by simp
  have p: "pipeline_generator xs 0 =
     zip (map Some xs) (map int [0..<length xs]) @ [(None, int (length xs))]"
    using pipeline_generator_eq [of xs 0] by simp
  have "\<forall>item \<in> set (zip (map Some xs) (map int [0..<length xs])). 0 \<le> snd item"
    by (auto dest!: set_zip_rightD)
  then show ?thesis unfolding k p by auto
qed

theorem generator_tags_witness:
  "keep_generator 3 [7, 8 :: int] 0 =
     [(Some 7, 0), (Some 8, 1), (None, 2), (None, - 1), (None, - 1)] \<and>
   pipeline_generator [7, 8 :: int] 0 = [(Some 7, 0), (Some 8, 1), (None, 2)]"
  using generator_tags [of 3 "[7, 8 :: int]"] by (simp add: upt_conv_Cons eval_nat_numeral)

theorem generator_end_item_counterexample:
  "pipeline_generator [7 :: int] 0 = [(Some 7, 0), (None, 1)] \<and>
   keep_generator 3 [7 :: int] 0 = [(Some 7, 0), (None, 1), (None, - 1), (None, - 1)]"
  by (simp add: eval_nat_numeral)

subsection \<open>The execution policy\<close>

text \<open>
  Claim C6 (amended). The execution policy validates nothing: the constructor and
  \<^verbatim>\<open>set_concurrency_degree\<close> store every degree, also one below 1, and
  \<^verbatim>\<open>concurrency_degree\<close> returns it; \<^verbatim>\<open>keep\<close> invoked with a degree below 1 rejects
  nothing either: it starts no filter task, and thread 0 starts generating.
\<close>

theorem policy_accepts_any_degree:
  "concurrency_degree (set_concurrency_degree ex degree) = degree \<and>
   concurrency_degree (make_parallel_execution_ff degree ord) = degree \<and>
   is_ordered (set_concurrency_degree ex degree) = is_ordered ex \<and>
   (degree < 1 \<longrightarrow>
      tasks (keep_init degree xs) = [] \<and>
      thread_step degree mv predicate_op Generator (keep_init degree xs) \<noteq> None)"
proof -
  have "pending (keep_init degree xs) \<noteq> []"
    by (cases xs) (simp_all add: keep_init_def)
  then have g: "thread_step degree mv predicate_op Generator (keep_init degree xs) \<noteq> None"
    by (simp add: generator_step_def split: list.splits)
  have t: "degree < 1 \<Longrightarrow> tasks (keep_init degree xs) = []"
    by (simp add: keep_init_def)
  show ?thesis
    using g t
    by (simp add: concurrency_degree_def set_concurrency_degree_def
        make_parallel_execution_ff_def is_ordered_def)
qed

theorem policy_accepts_any_degree_witness:
  "concurrency_degree (set_concurrency_degree (make_parallel_execution_ff 4 True) (- 2)) = - 2 \<and>
   tasks (keep_init (- 2) [7 :: int]) = [] \<and>
   thread_step (- 2) (\<lambda>v. v) (\<lambda>x. True) Generator (keep_init (- 2) [7 :: int]) \<noteq> None"
  using policy_accepts_any_degree [of "make_parallel_execution_ff 4 True" "- 2" True "[7 :: int]"
      "\<lambda>v. v" "\<lambda>x. True"]
  by simp

theorem degree_zero_accepted_counterexample:
  "concurrency_degree (set_concurrency_degree (make_parallel_execution_ff 4 True) 0) = 0 \<and>
   run 0 (\<lambda>v. v) (\<lambda>x. True) [Generator, Generator] (keep_init 0 [7 :: int]) =
     Some \<lparr>pending = [], generated_queue = [(Some 7, 0), (None, 1)], filtered_queue = [],
           tasks = [],
           consumer = \<lparr>done_threads = 0, item_buffer = [], order = 0, consumed = [],
                       finished = False\<rparr>,
           pushed = []\<rparr>"
  by (simp add: concurrency_degree_def set_concurrency_degree_def make_parallel_execution_ff_def
      keep_init_def generator_step_def)


subsection \<open>The native stream filter under the schedule with overtaking\<close>

text \<open>
  For comparison, a run in which task 0 filters the whole stream before the other tasks
  take their end-of-stream items: the items reach \<^verbatim>\<open>filtered_queue\<close> in tag order and the
  consumer is called with the values that satisfy the predicate, in input order.
\<close>

lemma keep_in_tag_order:
  "keep (replicate 8 Generator @ replicate 10 (Task 0) @ [Task 1, Task 1, Task 2, Task 2] @
         replicate 7 Consumer) 4 mv [x0, x1, x2, x3] (\<lambda>x. x \<noteq> x1) =
     Some (filter (\<lambda>x. x \<noteq> x1) [x0, x1, x2, x3])"
  by (simp add: keep_def keep_init_def generator_step_def task_step_def
      consumer_step_def consumer_iteration_def push_filtered_def search_buffer_def remove_if_def
      moved_from_def finish_def keep_returned_def erase_def Let_def eval_nat_numeral)

text \<open>
  The run under the schedule with overtaking, for any four values and any moved-from
  payload: the value tagged 1 is not delivered, the value tagged 3 is delivered twice (the
  first time as the moved-from payload).
\<close>

lemma keep_overtaking_general:
  "keep overtaking_schedule 4 mv [x0, x1, x2, x3] (\<lambda>x. True) = Some [x0, mv x3, x2, x3]"
  by (simp add: keep_def overtaking_schedule_def keep_init_def generator_step_def task_step_def
      consumer_step_def consumer_iteration_def push_filtered_def search_buffer_def remove_if_def
      moved_from_def finish_def keep_returned_def erase_def Let_def eval_nat_numeral)

text \<open>
  Claim C1 asks that the values passed to the consumer by \<^verbatim>\<open>keep\<close> are the values that
  satisfy the predicate, in input order. Under the schedule with overtaking, concurrency
  degree 4, the stream 10, 11, 12, 13 and a predicate that holds everywhere, the consumer
  is called with 10, 13, 12, 13: the search in the buffer consumes what
  \<^verbatim>\<open>std::remove_if\<close> left behind its result, not the elements it removed.
\<close>

theorem keep_order_fidelity_violated:
  "keep overtaking_schedule 4 (\<lambda>v. v) [10, 11, 12, 13 :: int] (\<lambda>x. True) =
     Some [10, 13, 12, 13]"
  by code_simp

text \<open>
  Claim C4 asks that the consumer, on reaching a hole at the expected tag, advances without
  calling the consumer callback. With the predicate failing on 11 the item tagged 1 is a
  hole; under the schedule with overtaking the consumer holds it in its buffer before the
  item tagged 3 when the item tagged 0 arrives. That pass releases the hole (the order
  goes from 0 to 2) and calls the callback with 13; the complete run delivers
  10, 13, 12, 13 instead of 10, 12, 13.
\<close>

theorem hole_release_calls_consumer:
  "map_option consumer
     (run 4 (\<lambda>v. v) (\<lambda>x. x \<noteq> 11) (take 24 overtaking_schedule)
        (keep_init 4 [10, 11, 12, 13 :: int])) =
     Some \<lparr>done_threads = 0, item_buffer = [(None, 1), (Some 13, 3)], order = 0,
            consumed = [], finished = False\<rparr> \<and>
   consumer_iteration 4 (\<lambda>v. v)
     \<lparr>done_threads = 0, item_buffer = [(None, 1), (Some 13, 3)], order = 0, consumed = [],
       finished = False\<rparr> (Some (10 :: int), 0) =
     \<lparr>done_threads = 0, item_buffer = [(Some 13, 3)], order = 2, consumed = [10, 13],
       finished = False\<rparr> \<and>
   keep overtaking_schedule 4 (\<lambda>v. v) [10, 11, 12, 13 :: int] (\<lambda>x. x \<noteq> 11) =
     Some [10, 13, 12, 13]"
  by code_simp

lemma discard_is_keep_negated:
  "discard sched degree mv generate_op predicate_op =
     keep sched degree mv generate_op (\<lambda>val. \<not> predicate_op val)"
  by (simp add: discard_def)

text \<open>
  Claim C7 asks that \<^verbatim>\<open>discard\<close> behaves as \<^verbatim>\<open>keep\<close> with the negated predicate, and
  that it delivers exactly the values on which the predicate is false. The first part
  holds by the definition of \<^verbatim>\<open>discard\<close>; the second fails with the predicate false
  everywhere, under the schedule with overtaking: 11 is never delivered.
\<close>

theorem discard_delivery_violated:
  "discard overtaking_schedule 4 (\<lambda>v. v) [10, 11, 12, 13 :: int] (\<lambda>x. False) =
     Some [10, 13, 12, 13]"
  by code_simp


subsection \<open>The termination protocol of keep\<close>

lemma filter_update_count:
  "i < length xs \<Longrightarrow>
   length (filter P (xs[i := y])) + (if P (xs ! i) then 1 else 0) =
   length (filter P xs) + (if P y then 1 else 0)"
proof (induction xs arbitrary: i)
  case Nil
  then show ?case by simp
next
  case (Cons x xs)
  show ?case
  proof (cases i)
    case 0
    then show ?thesis by simp
  next
    case (Suc j)
    then have "j < length xs" using Cons.prems by simp
    from Cons.IH [OF this] show ?thesis using Suc by simp
  qed
qed

lemma list_all_update:
  "list_all P xs \<Longrightarrow> P y \<Longrightarrow> list_all P (xs[i := y])"
  by (induction xs arbitrary: i) (auto split: nat.splits)

lemma list_all_nth: "list_all P xs \<Longrightarrow> i < length xs \<Longrightarrow> P (xs ! i)"
  by (simp add: list_all_length)

lemma search_buffer_fields [simp]:
  "done_threads (search_buffer mv c) = done_threads c"
  "finished (search_buffer mv c) = finished c"
  by (simp_all add: search_buffer_def split: prod.splits)

lemma finish_fields [simp]:
  "done_threads (finish c) = done_threads c"
  "finished (finish c) = True"
  by (simp_all add: finish_def split: prod.splits)

lemma keep_generator_tagged: "0 \<le> k \<Longrightarrow> list_all tagged (keep_generator degree xs k)"
proof (induction xs arbitrary: k)
  case Nil
  then show ?case by (auto simp: tagged_def list_all_iff)
next
  case (Cons x xs)
  have "list_all tagged (keep_generator degree xs (k + 1))"
    using Cons.prems by (intro Cons.IH) simp
  moreover have "tagged (Some x, k)" using Cons.prems by (simp add: tagged_def)
  ultimately show ?case by simp
qed

lemma keep_generator_absent:
  "length (filter absent (keep_generator degree xs k)) = Suc (nat (degree - 1))"
  by (induction xs arbitrary: k) (simp_all add: absent_def)

lemma keep_inv_init: "2 \<le> degree \<Longrightarrow> keep_inv degree (keep_init degree xs)"
  using keep_generator_tagged [of 0 degree xs]
  by (simp add: keep_inv_def keep_init_def keep_generator_absent list_all_iff)


lemma keep_inv_generator:
  assumes "keep_inv degree s" and "generator_step s = Some s'"
  shows "keep_inv degree s'"
proof -
  obtain item rest where p: "pending s = item # rest"
    and s': "s' = s\<lparr>pending := rest, generated_queue := generated_queue s @ [item]\<rparr>"
    using assms(2) by (auto simp: generator_step_def split: list.splits)
  show ?thesis
    using assms(1) unfolding keep_inv_def s' p by auto
qed

lemma keep_inv_task_pop:
  assumes inv: "keep_inv degree s" and i: "i < length (tasks s)"
    and w: "tasks s ! i = Popping" and q: "generated_queue s = item # rest"
  shows "keep_inv degree (s\<lparr>generated_queue := rest, tasks := (tasks s)[i := Holding item]\<rparr>)"
proof -
  let ?ts = "(tasks s)[i := Holding item]"
  have e: "length (filter (\<lambda>w. w = Exited) ?ts) = length (filter (\<lambda>w. w = Exited) (tasks s))"
    using filter_update_count [OF i, of "\<lambda>w. w = Exited" "Holding item"] w by simp
  have r: "length (filter running ?ts) + 1 =
      length (filter running (tasks s)) + (if fst item \<noteq> None then 1 else 0)"
    using filter_update_count [OF i, of running "Holding item"] w by simp
  have t: "tagged item" using inv q by (simp add: keep_inv_def)
  have h: "list_all held_tagged ?ts"
    using inv t by (intro list_all_update) (simp_all add: keep_inv_def)
  have a: "length (filter absent (pending s @ rest)) + (if fst item \<noteq> None then 0 else 1) =
      length (filter absent (pending s @ generated_queue s))"
    unfolding q by (simp add: absent_def)
  show ?thesis
    using inv e r h a unfolding keep_inv_def q by (auto split: if_splits)
qed

lemma keep_inv_task_push:
  assumes inv: "keep_inv degree s" and i: "i < length (tasks s)"
    and w: "tasks s ! i = Holding item" and v: "fst item = Some v"
    and x: "x = item \<or> x = (None, snd item)"
  shows "keep_inv degree (push_filtered x (s\<lparr>tasks := (tasks s)[i := Popping]\<rparr>))"
proof -
  let ?ts = "(tasks s)[i := Popping]"
  have e: "length (filter (\<lambda>w. w = Exited) ?ts) = length (filter (\<lambda>w. w = Exited) (tasks s))"
    using filter_update_count [OF i, of "\<lambda>w. w = Exited" Popping] w by simp
  have r: "length (filter running ?ts) = length (filter running (tasks s))"
    using filter_update_count [OF i, of running Popping] w v by simp
  have "list_all held_tagged (tasks s)" using inv by (simp add: keep_inv_def)
  then have "held_tagged (tasks s ! i)" using i by (rule list_all_nth)
  then have "tagged item" using w by simp
  then have nt: "\<not> terminal x" using x v by (auto simp: tagged_def terminal_def)
  have h: "list_all held_tagged ?ts"
    using inv by (intro list_all_update) (simp_all add: keep_inv_def)
  show ?thesis
    using inv e r h nt unfolding keep_inv_def push_filtered_def by simp
qed

lemma keep_inv_task_exit:
  assumes inv: "keep_inv degree s" and i: "i < length (tasks s)"
    and w: "tasks s ! i = Holding item" and v: "fst item = None"
  shows "keep_inv degree (push_filtered (fst item, - 1) (s\<lparr>tasks := (tasks s)[i := Exited]\<rparr>))"
proof -
  let ?ts = "(tasks s)[i := Exited]"
  have e: "length (filter (\<lambda>w. w = Exited) ?ts) = Suc (length (filter (\<lambda>w. w = Exited) (tasks s)))"
    using filter_update_count [OF i, of "\<lambda>w. w = Exited" Exited] w by simp
  have r: "length (filter running ?ts) = length (filter running (tasks s))"
    using filter_update_count [OF i, of running Exited] w v by simp
  have h: "list_all held_tagged ?ts"
    using inv by (intro list_all_update) (simp_all add: keep_inv_def)
  have t: "terminal (fst item, - 1)" using v by (simp add: terminal_def)
  show ?thesis
    using inv e r h t unfolding keep_inv_def push_filtered_def by simp
qed

lemma keep_inv_task:
  assumes "keep_inv degree s" and "task_step predicate_op i s = Some s'"
  shows "keep_inv degree s'"
proof -
  have i: "i < length (tasks s)" using assms(2) by (simp add: task_step_def split: if_splits)
  show ?thesis
  proof (cases "tasks s ! i")
    case Popping
    then obtain item rest where "generated_queue s = item # rest"
      and "s' = s\<lparr>generated_queue := rest, tasks := (tasks s)[i := Holding item]\<rparr>"
      using assms(2) i by (auto simp: task_step_def split: list.splits)
    then show ?thesis using keep_inv_task_pop [OF assms(1) i Popping] by simp
  next
    case (Holding item)
    show ?thesis
    proof (cases "fst item")
      case None
      then have "s' = push_filtered (fst item, - 1) (s\<lparr>tasks := (tasks s)[i := Exited]\<rparr>)"
        using assms(2) i Holding by (simp add: task_step_def)
      then show ?thesis using keep_inv_task_exit [OF assms(1) i Holding None] by simp
    next
      case (Some v)
      then have "s' = push_filtered (if predicate_op v then item else (None, snd item))
          (s\<lparr>tasks := (tasks s)[i := Popping]\<rparr>)"
        using assms(2) i Holding by (simp add: task_step_def)
      then show ?thesis
        using keep_inv_task_push [OF assms(1) i Holding Some,
            of "if predicate_op v then item else (None, snd item)"] by simp
    qed
  next
    case Exited
    then show ?thesis using assms(2) i by (simp add: task_step_def)
  qed
qed

lemma keep_inv_consumer:
  assumes inv: "keep_inv degree s" and st: "consumer_step degree mv s = Some s'"
  shows "keep_inv degree s'"
proof -
  have nf: "\<not> finished (consumer s)" using st by (simp add: consumer_step_def split: if_splits)
  then obtain item rest where q: "filtered_queue s = item # rest"
    and s': "s' = s\<lparr>filtered_queue := rest,
        consumer := consumer_iteration degree mv (consumer s) item\<rparr>"
    using st by (auto simp: consumer_step_def split: list.splits)
  have nd: "done_threads (consumer s) \<noteq> degree - 1" using inv nf by (simp add: keep_inv_def)
  let ?c = "consumer_iteration degree mv (consumer s) item"
  have d: "done_threads ?c = done_threads (consumer s) + (if terminal item then 1 else 0)"
    using nd by (simp add: consumer_iteration_def terminal_def Let_def)
  have f: "finished ?c \<longleftrightarrow> done_threads ?c = degree - 1"
    using nd nf by (simp add: consumer_iteration_def terminal_def Let_def)
  show ?thesis
    using inv d f unfolding keep_inv_def s' q by (auto split: if_splits)
qed

lemma keep_inv_step:
  "keep_inv degree s \<Longrightarrow> thread_step degree mv predicate_op t s = Some s' \<Longrightarrow> keep_inv degree s'"
  by (cases t) (auto intro: keep_inv_generator keep_inv_task keep_inv_consumer)

lemma keep_inv_run:
  "keep_inv degree s \<Longrightarrow> run degree mv predicate_op sched s = Some s' \<Longrightarrow> keep_inv degree s'"
proof (induction sched arbitrary: s)
  case Nil
  then show ?case by simp
next
  case (Cons t sched)
  then obtain s1 where 1: "thread_step degree mv predicate_op t s = Some s1"
    and 2: "run degree mv predicate_op sched s1 = Some s'"
    by (auto split: option.splits)
  have "keep_inv degree s1" using Cons.prems(1) 1 by (rule keep_inv_step)
  then show ?case using 2 by (rule Cons.IH)
qed


lemma work_step:
  assumes "thread_step degree mv predicate_op t s = Some s'"
  shows "Suc (work s') = work s"
proof (cases t)
  case Generator
  then show ?thesis
    using assms by (auto simp: generator_step_def work_def split: list.splits)
next
  case (Task i)
  then have st: "task_step predicate_op i s = Some s'" using assms by simp
  then have i: "i < length (tasks s)" by (simp add: task_step_def split: if_splits)
  show ?thesis
  proof (cases "tasks s ! i")
    case Popping
    have "length (filter holding ((tasks s)[i := Holding item])) =
        Suc (length (filter holding (tasks s)))" for item :: "'a item"
      using filter_update_count [OF i, of holding "Holding item"] Popping by simp
    then show ?thesis
      using st i Popping by (auto simp: task_step_def work_def split: list.splits)
  next
    case (Holding item)
    have "Suc (length (filter holding ((tasks s)[i := w]))) = length (filter holding (tasks s))"
      if "\<not> holding w" for w
      using filter_update_count [OF i, of holding w] Holding that by simp
    from this [of Popping] this [of Exited] show ?thesis
      using st i Holding
      by (auto simp: task_step_def work_def push_filtered_def split: option.splits)
  next
    case Exited
    then show ?thesis using st i by (simp add: task_step_def)
  qed
next
  case Consumer
  then show ?thesis
    using assms by (auto simp: consumer_step_def work_def split: if_splits list.splits)
qed

lemma work_run:
  "run degree mv predicate_op sched s = Some s' \<Longrightarrow> length sched + work s' = work s"
proof (induction sched arbitrary: s)
  case Nil
  then show ?case by simp
next
  case (Cons t sched)
  then obtain s1 where 1: "thread_step degree mv predicate_op t s = Some s1"
    and 2: "run degree mv predicate_op sched s1 = Some s'"
    by (auto split: option.splits)
  show ?case using work_step [OF 1] Cons.IH [OF 2] by simp
qed

lemma keep_generator_length:
  "length (keep_generator degree xs k) = length xs + Suc (nat (degree - 1))"
  by (induction xs arbitrary: k) simp_all

lemma work_init: "2 \<le> degree \<Longrightarrow> work (keep_init degree xs) = 4 * (length xs + nat degree)"
proof -
  assume "2 \<le> degree"
  then have "Suc (nat (degree - 1)) = nat degree" by simp
  then show ?thesis
    by (simp add: work_def keep_init_def keep_generator_length)
qed

lemma keep_progress:
  assumes inv: "keep_inv degree s" and d: "2 \<le> degree" and nr: "\<not> keep_returned s"
  shows "\<exists>t. thread_step degree mv predicate_op t s \<noteq> None"
proof (cases "pending s")
  case (Cons item rest)
  then have "thread_step degree mv predicate_op Generator s \<noteq> None"
    by (simp add: generator_step_def)
  then show ?thesis ..
next
  case Nil
  show ?thesis
  proof (cases "list_all (\<lambda>w. w = Exited) (tasks s)")
    case False
    then obtain i where i: "i < length (tasks s)" and w: "tasks s ! i \<noteq> Exited"
      by (auto simp: list_all_length)
    have "task_step predicate_op i s \<noteq> None"
    proof (cases "tasks s ! i")
      case Popping
      then have "running (tasks s ! i)" by simp
      moreover have "tasks s ! i \<in> set (tasks s)" using i by simp
      ultimately have "filter running (tasks s) \<noteq> []"
        by (simp only: filter_empty_conv) blast
      then have "0 < length (filter running (tasks s))" by simp
      then have "generated_queue s \<noteq> []"
        using inv Nil by (auto simp: keep_inv_def)
      then show ?thesis
        using i Popping by (auto simp: task_step_def split: list.splits)
    next
      case (Holding item)
      then show ?thesis using i by (auto simp: task_step_def split: option.splits)
    next
      case Exited
      then show ?thesis using w by simp
    qed
    then have "thread_step degree mv predicate_op (Task i) s \<noteq> None" by simp
    then show ?thesis ..
  next
    case True
    then have nf: "\<not> finished (consumer s)" using nr Nil by (simp add: keep_returned_def)
    have "filter (\<lambda>w. w = Exited) (tasks s) = tasks s"
      using True by (simp add: list_all_iff)
    then have "length (filter (\<lambda>w. w = Exited) (tasks s)) = nat (degree - 1)"
      using inv by (simp add: keep_inv_def)
    then have "done_threads (consumer s) + int (length (filter terminal (filtered_queue s))) =
        degree - 1"
      using inv d by (simp add: keep_inv_def)
    moreover have "done_threads (consumer s) \<noteq> degree - 1"
      using inv nf by (simp add: keep_inv_def)
    ultimately have "filtered_queue s \<noteq> []" by auto
    then have "thread_step degree mv predicate_op Consumer s \<noteq> None"
      using nf by (auto simp: consumer_step_def split: list.splits)
    then show ?thesis ..
  qed
qed

lemma list_all_absent_suffix: "list_all absent items \<Longrightarrow> absent_suffix items"
  by (cases items) simp_all

lemma absent_suffix_tail: "absent_suffix (item # items) \<Longrightarrow> absent_suffix items"
  by (auto simp: list_all_absent_suffix split: if_splits)

lemma absent_suffix_head: "absent_suffix (item # items) \<Longrightarrow> absent item \<Longrightarrow> list_all absent items"
  by simp

lemma keep_generator_absent_suffix: "absent_suffix (keep_generator degree xs k)"
  by (induction xs arbitrary: k) (simp_all add: absent_def list_all_iff)

lemma keep_inv_queues_init: "2 \<le> degree \<Longrightarrow> keep_inv_queues (keep_init degree xs)"
  by (simp add: keep_inv_queues_def keep_init_def keep_generator_absent_suffix list_all_iff)

lemma filter_all_length:
  "length (filter P xs) = length xs \<Longrightarrow> list_all P xs"
  by (metis filter_id_conv length_filter_less less_irrefl list_all_iff)

lemma not_all_update:
  "i < length xs \<Longrightarrow> \<not> P y \<Longrightarrow> \<not> list_all P (xs[i := y])"
  by (metis list_all_length length_list_update nth_list_update_eq)

lemma not_all_nth:
  "i < length xs \<Longrightarrow> \<not> P (xs ! i) \<Longrightarrow> \<not> list_all P xs"
  by (simp add: list_all_length) blast

lemma keep_inv_queues_generator:
  assumes "keep_inv_queues s" and "generator_step s = Some s'"
  shows "keep_inv_queues s'"
proof -
  obtain item rest where p: "pending s = item # rest"
    and s': "s' = s\<lparr>pending := rest, generated_queue := generated_queue s @ [item]\<rparr>"
    using assms(2) by (auto simp: generator_step_def split: list.splits)
  show ?thesis
    using assms(1) unfolding keep_inv_queues_def s' p by simp
qed

lemma keep_inv_queues_task:
  assumes q: "keep_inv_queues s" and st: "task_step predicate_op i s = Some s'"
  shows "keep_inv_queues s'"
proof -
  have i: "i < length (tasks s)" using st by (simp add: task_step_def split: if_splits)
  have nf: "\<not> finished (consumer s)" if "tasks s ! i \<noteq> Exited"
    using q not_all_nth [OF i, of "\<lambda>w. w = Exited"] that by (auto simp: keep_inv_queues_def)
  show ?thesis
  proof (cases "tasks s ! i")
    case Popping
    then obtain item rest where g: "generated_queue s = item # rest"
      and s': "s' = s\<lparr>generated_queue := rest, tasks := (tasks s)[i := Holding item]\<rparr>"
      using st i by (auto simp: task_step_def split: list.splits)
    have a0: "absent_suffix (item # rest @ pending s)"
      using q unfolding keep_inv_queues_def g by (simp del: absent_suffix.simps)
    then have 1: "absent_suffix (rest @ pending s)" by (rule absent_suffix_tail)
    have 2: "list_all running ((tasks s)[i := Holding item]) \<or> list_all absent (rest @ pending s)"
    proof (cases "list_all absent (generated_queue s @ pending s)")
      case True
      then show ?thesis using g by simp
    next
      case False
      then have r: "list_all running (tasks s)" using q by (auto simp: keep_inv_queues_def)
      show ?thesis
      proof (cases "fst item")
        case None
        then have "absent item" by (simp add: absent_def)
        then have "list_all absent (rest @ pending s)"
          using a0 by (intro absent_suffix_head)
        then show ?thesis ..
      next
        case (Some v)
        then have "running (Holding item)" by simp
        with r have "list_all running ((tasks s)[i := Holding item])"
          by (rule list_all_update)
        then show ?thesis ..
      qed
    qed
    have 3: "\<not> list_all (\<lambda>w. w = Exited) ((tasks s)[i := Holding item])"
      using i by (intro not_all_update) simp_all
    have 4: "\<not> finished (consumer s)" using nf Popping by simp
    show ?thesis using 1 2 3 4 unfolding keep_inv_queues_def s' by simp
  next
    case (Holding item)
    have 4: "\<not> finished (consumer s)" using nf Holding by simp
    have 1: "absent_suffix (generated_queue s @ pending s)"
      using q by (simp add: keep_inv_queues_def)
    show ?thesis
    proof (cases "fst item")
      case None
      then have s': "s' = push_filtered (fst item, - 1) (s\<lparr>tasks := (tasks s)[i := Exited]\<rparr>)"
        using st i Holding by (simp add: task_step_def)
      have "\<not> running (tasks s ! i)" using Holding None by simp
      then have "\<not> list_all running (tasks s)" using i by (intro not_all_nth)
      then have 2: "list_all absent (generated_queue s @ pending s)"
        using q by (auto simp: keep_inv_queues_def)
      have 3: "terminal (fst item, - 1)" using None by (simp add: terminal_def)
      show ?thesis using 1 2 3 4 unfolding keep_inv_queues_def s' push_filtered_def by simp
    next
      case (Some v)
      then have s': "s' = push_filtered (if predicate_op v then item else (None, snd item))
          (s\<lparr>tasks := (tasks s)[i := Popping]\<rparr>)"
        using st i Holding by (simp add: task_step_def)
      have 2: "list_all running ((tasks s)[i := Popping]) \<or>
          list_all absent (generated_queue s @ pending s)"
      proof (cases "list_all absent (generated_queue s @ pending s)")
        case True
        then show ?thesis ..
      next
        case False
        then have "list_all running (tasks s)" using q by (auto simp: keep_inv_queues_def)
        then have "list_all running ((tasks s)[i := Popping])"
          by (rule list_all_update) simp
        then show ?thesis ..
      qed
      have 3: "\<not> list_all (\<lambda>w. w = Exited) ((tasks s)[i := Popping])"
        using i by (intro not_all_update) simp_all
      show ?thesis using 1 2 3 4 unfolding keep_inv_queues_def s' push_filtered_def by simp
    qed
  next
    case Exited
    then show ?thesis using st i by (simp add: task_step_def)
  qed
qed


lemma keep_inv_queues_consumer:
  assumes inv: "keep_inv degree s" and q: "keep_inv_queues s" and dg: "2 \<le> degree"
    and st: "consumer_step degree mv s = Some s'"
  shows "keep_inv_queues s'"
proof -
  have nf: "\<not> finished (consumer s)" using st by (simp add: consumer_step_def split: if_splits)
  then obtain item rest where fq: "filtered_queue s = item # rest"
    and s': "s' = s\<lparr>filtered_queue := rest,
        consumer := consumer_iteration degree mv (consumer s) item\<rparr>"
    using st by (auto simp: consumer_step_def split: list.splits)
  let ?c = "consumer_iteration degree mv (consumer s) item"
  let ?E = "\<lambda>w. w = Exited"
  have nd: "done_threads (consumer s) \<noteq> degree - 1" using inv nf by (simp add: keep_inv_def)
  have d: "done_threads ?c = done_threads (consumer s) + (if terminal item then 1 else 0)"
    using nd by (simp add: consumer_iteration_def terminal_def Let_def)
  have f: "finished ?c \<longleftrightarrow> done_threads ?c = degree - 1"
    using nd nf by (simp add: consumer_iteration_def terminal_def Let_def)
  have 3: "rest = [] \<or> \<not> list_all ?E (tasks s) \<or> terminal (last rest)"
    using q fq by (auto simp: keep_inv_queues_def split: if_splits)
  have 4: "list_all ?E (tasks s) \<and> rest = []" if fin: "finished ?c"
  proof -
    have e: "done_threads (consumer s) + int (length (filter terminal (item # rest))) =
        int (length (filter ?E (tasks s)))"
      using inv fq by (simp add: keep_inv_def)
    have len: "length (tasks s) = nat (degree - 1)" using inv by (simp add: keep_inv_def)
    have le: "length (filter ?E (tasks s)) \<le> length (tasks s)" by (rule length_filter_le)
    have t: "terminal item" using fin f d nd by (auto split: if_splits)
    then have dd: "done_threads (consumer s) + 1 = degree - 1" using fin f d by simp
    have e': "done_threads (consumer s) + 1 + int (length (filter terminal rest)) =
        int (length (filter ?E (tasks s)))"
      using e t by simp
    have len': "int (length (tasks s)) = degree - 1" using len dg by simp
    have "length (filter ?E (tasks s)) = length (tasks s) \<and> length (filter terminal rest) = 0"
      using e' dd len' le by linarith
    then have all: "list_all ?E (tasks s)" and none: "filter terminal rest = []"
      by (simp_all add: filter_all_length)
    have "rest = []"
    proof (rule ccontr)
      assume ne: "rest \<noteq> []"
      then have "terminal (last rest)" using 3 all by simp
      moreover have "last rest \<in> set rest" using ne by simp
      ultimately have "last rest \<in> set (filter terminal rest)" by simp
      then show False using none by simp
    qed
    then show ?thesis using all by simp
  qed
  show ?thesis
    using q 3 4 unfolding keep_inv_queues_def s' by auto
qed

lemma keep_invs_step:
  assumes "keep_inv degree s \<and> keep_inv_queues s" and "2 \<le> degree"
    and "thread_step degree mv predicate_op t s = Some s'"
  shows "keep_inv degree s' \<and> keep_inv_queues s'"
proof
  show "keep_inv degree s'" using assms by (blast intro: keep_inv_step)
  show "keep_inv_queues s'"
    using assms
    by (cases t) (auto intro: keep_inv_queues_generator keep_inv_queues_task
        keep_inv_queues_consumer)
qed

lemma keep_invs_run:
  "keep_inv degree s \<and> keep_inv_queues s \<Longrightarrow> 2 \<le> degree \<Longrightarrow>
   run degree mv predicate_op sched s = Some s' \<Longrightarrow>
   keep_inv degree s' \<and> keep_inv_queues s'"
proof (induction sched arbitrary: s)
  case Nil
  then show ?case by simp
next
  case (Cons t sched)
  then obtain s1 where 1: "thread_step degree mv predicate_op t s = Some s1"
    and 2: "run degree mv predicate_op sched s1 = Some s'"
    by (auto split: option.splits)
  have "keep_inv degree s1 \<and> keep_inv_queues s1"
    using Cons.prems(1,2) 1 by (rule keep_invs_step)
  then show ?case using Cons.prems(2) 2 by (rule Cons.IH)
qed

lemma exited_counts:
  assumes "list_all (\<lambda>w. w = Exited) ts"
  shows "filter running ts = [] \<and> filter holding ts = [] \<and> filter (\<lambda>w. w = Exited) ts = ts"
  using assms by (induction ts) auto

lemma work_returned:
  assumes inv: "keep_inv degree s" and q: "keep_inv_queues s" and d: "2 \<le> degree"
    and r: "keep_returned s"
  shows "work s = 3 \<and> length (generated_queue s) = 1 \<and> filtered_queue s = []"
proof -
  have p: "pending s = []" and e: "list_all (\<lambda>w. w = Exited) (tasks s)"
    and f: "finished (consumer s)"
    using r by (simp_all add: keep_returned_def)
  have fq: "filtered_queue s = []" using q f by (auto simp: keep_inv_queues_def)
  note c = exited_counts [OF e]
  have "length (tasks s) = nat (degree - 1)" using inv by (simp add: keep_inv_def)
  then have "tasks s \<noteq> []" using d by auto
  then obtain w ws where ts: "tasks s = w # ws" by (cases "tasks s") auto
  then have "w = Exited" using e by simp
  then have "\<not> list_all running (tasks s)" using ts by simp
  then have "list_all absent (generated_queue s)" using q p by (auto simp: keep_inv_queues_def)
  then have "filter absent (generated_queue s) = generated_queue s"
    by (simp add: list_all_iff)
  moreover have "length (filter absent (generated_queue s)) = Suc 0"
    using inv p c by (simp add: keep_inv_def)
  ultimately have g: "length (generated_queue s) = 1" by simp
  show ?thesis using p fq g c by (simp add: work_def)
qed

text \<open>
  Claim C3 (amended). In \<^verbatim>\<open>keep\<close> with a concurrency degree of at least 2 there are
  \<open>concurrency_degree - 1\<close> filter tasks. The end-of-stream items pushed onto
  \<^verbatim>\<open>filtered_queue\<close> are at every moment as many as the tasks that have ended, one for
  each, and the consumer's \<^verbatim>\<open>done_threads\<close> counts those of them it has popped. When
  \<^verbatim>\<open>keep\<close> returns, \<open>concurrency_degree - 1\<close> end-of-stream items have been pushed (not
  one), the consumer has counted them all, \<^verbatim>\<open>filtered_queue\<close> is empty, one item without
  payload is left in \<^verbatim>\<open>generated_queue\<close>, and the run has taken exactly
  \<open>4 * (N + concurrency_degree) - 3\<close> steps. No thread hangs: as long as \<^verbatim>\<open>keep\<close> has not
  returned some thread can take a step, and no run has more than
  \<open>4 * (N + concurrency_degree)\<close> steps.
\<close>

theorem keep_termination_protocol:
  assumes "2 \<le> degree"
    and "run degree mv predicate_op sched (keep_init degree xs) = Some s"
  shows "length (tasks s) = nat (degree - 1) \<and>
     length (filter terminal (pushed s)) = length (filter (\<lambda>w. w = Exited) (tasks s)) \<and>
     done_threads (consumer s) + int (length (filter terminal (filtered_queue s))) =
       int (length (filter (\<lambda>w. w = Exited) (tasks s))) \<and>
     (keep_returned s \<longrightarrow>
        length (filter terminal (pushed s)) = nat (degree - 1) \<and>
        done_threads (consumer s) = degree - 1 \<and>
        length (generated_queue s) = 1 \<and> filtered_queue s = [] \<and>
        length sched + 3 = 4 * (length xs + nat degree)) \<and>
     (\<not> keep_returned s \<longrightarrow> (\<exists>t. thread_step degree mv predicate_op t s \<noteq> None)) \<and>
     length sched + work s = 4 * (length xs + nat degree)"
proof -
  have "keep_inv degree (keep_init degree xs) \<and> keep_inv_queues (keep_init degree xs)"
    by (intro conjI keep_inv_init keep_inv_queues_init assms(1))
  then have invs: "keep_inv degree s \<and> keep_inv_queues s"
    using assms by (rule keep_invs_run)
  then have inv: "keep_inv degree s" and q: "keep_inv_queues s" by simp_all
  have 1: "length (tasks s) = nat (degree - 1)" using inv by (simp add: keep_inv_def)
  have 2: "length (filter terminal (pushed s)) = length (filter (\<lambda>w. w = Exited) (tasks s))"
    using inv by (simp add: keep_inv_def)
  have 3: "done_threads (consumer s) + int (length (filter terminal (filtered_queue s))) =
       int (length (filter (\<lambda>w. w = Exited) (tasks s)))"
    using inv by (simp add: keep_inv_def)
  have 6: "length sched + work s = 4 * (length xs + nat degree)"
    using work_run [OF assms(2)] work_init [OF assms(1)] by simp
  have 4: "length (filter terminal (pushed s)) = nat (degree - 1) \<and>
        done_threads (consumer s) = degree - 1 \<and>
        length (generated_queue s) = 1 \<and> filtered_queue s = [] \<and>
        length sched + 3 = 4 * (length xs + nat degree)" if r: "keep_returned s"
  proof -
    have "filter (\<lambda>w. w = Exited) (tasks s) = tasks s"
      using r by (simp add: keep_returned_def list_all_iff)
    then have a: "length (filter terminal (pushed s)) = nat (degree - 1)" using 1 2 by simp
    have b: "done_threads (consumer s) = degree - 1"
      using inv r by (simp add: keep_inv_def keep_returned_def)
    note w = work_returned [OF inv q assms(1) r]
    show ?thesis using a b w 6 by simp
  qed
  have 5: "\<exists>t. thread_step degree mv predicate_op t s \<noteq> None" if "\<not> keep_returned s"
    using inv assms(1) that by (rule keep_progress)
  show ?thesis using 1 2 3 4 5 6 by blast
qed

theorem keep_termination_protocol_witness:
  "run 3 (\<lambda>v. v) (\<lambda>x. True)
       [Generator, Generator, Generator, Generator, Task 0, Task 0, Task 0, Task 0,
        Task 1, Task 1, Consumer, Consumer, Consumer]
       (keep_init 3 [7 :: int]) =
     Some \<lparr>pending = [], generated_queue = [(None, - 1)], filtered_queue = [],
           tasks = [Exited, Exited],
           consumer = \<lparr>done_threads = 2, item_buffer = [], order = 1, consumed = [7],
                       finished = True\<rparr>,
           pushed = [(Some 7, 0), (None, - 1), (None, - 1)]\<rparr> \<and>
   length (filter terminal [(Some (7 :: int), 0), (None, - 1), (None, - 1)]) = 2 \<and>
   length [Generator, Generator, Generator, Generator, Task 0, Task 0, Task 0, Task 0,
        Task 1, Task 1, Consumer, Consumer, Consumer] + 3 = 4 * (length [7 :: int] + nat 3)"
proof -
  let ?sched = "[Generator, Generator, Generator, Generator, Task 0, Task 0, Task 0, Task 0,
        Task 1, Task 1, Consumer, Consumer, Consumer]"
  let ?s = "\<lparr>pending = [], generated_queue = [(None, - 1)], filtered_queue = [],
           tasks = [Exited, Exited],
           consumer = \<lparr>done_threads = 2, item_buffer = [], order = 1, consumed = [7 :: int],
                       finished = True\<rparr>,
           pushed = [(Some 7, 0), (None, - 1), (None, - 1)]\<rparr>"
  have r: "run 3 (\<lambda>v. v) (\<lambda>x. True) ?sched (keep_init 3 [7 :: int]) = Some ?s"
    by code_simp
  have d: "(2 :: int) \<le> 3" by simp
  have k: "keep_returned ?s" by (simp add: keep_returned_def)
  from keep_termination_protocol [OF d r] k
  have "length (filter terminal (pushed ?s)) = nat (3 - 1) \<and>
      length ?sched + 3 = 4 * (length [7 :: int] + nat 3)"
    by blast
  then show ?thesis using r by simp
qed

theorem two_sentinels_counterexample:
  "map_option pushed
     (run 3 (\<lambda>v. v) (\<lambda>x. True)
       [Generator, Generator, Generator, Generator, Task 0, Task 0, Task 0, Task 0,
        Task 1, Task 1, Consumer, Consumer, Consumer]
       (keep_init 3 [7 :: int])) =
     Some [(Some 7, 0), (None, - 1), (None, - 1)] \<and>
   keep [Generator, Generator, Generator, Generator, Task 0, Task 0, Task 0, Task 0,
        Task 1, Task 1, Consumer, Consumer, Consumer] 3 (\<lambda>v. v) [7 :: int] (\<lambda>x. True) =
     Some [7]"
  by code_simp


subsection \<open>The last stage of the OpenMP pipeline\<close>












lemma pipeline_scan_releases_at_most_one:
  "pipeline_scan elements current out = Some (elements', current', out') \<Longrightarrow>
   (elements' = elements \<and> current' = current \<and> out' = out) \<or>
   (Suc (length elements') = length elements \<and> current' = current + 1 \<and>
    length out' = Suc (length out))"
  by (auto simp: pipeline_scan_def Let_def erase_def split: if_splits option.splits)





subsection \<open>Concurrency degrees below 2\<close>

text \<open>
  With a concurrency degree below 2 \<^verbatim>\<open>keep\<close> starts no filter task: nothing is ever pushed
  onto \<^verbatim>\<open>filtered_queue\<close>, the consumer stays blocked in its first \<^verbatim>\<open>pop\<close>, and
  \<^verbatim>\<open>keep\<close> does not return under any schedule.
\<close>

lemma run_without_tasks:
  assumes "tasks s = []" and "filtered_queue s = []" and "\<not> finished (consumer s)"
    and "run degree mv predicate_op sched s = Some s'"
  shows "\<not> finished (consumer s')"
  using assms
proof (induction sched arbitrary: s)
  case Nil
  then show ?case by simp
next
  case (Cons t sched)
  then obtain s1 where 1: "thread_step degree mv predicate_op t s = Some s1"
    and 2: "run degree mv predicate_op sched s1 = Some s'"
    by (auto split: option.splits)
  have "tasks s1 = [] \<and> filtered_queue s1 = [] \<and> \<not> finished (consumer s1)"
  proof (cases t)
    case Generator
    then show ?thesis
      using 1 Cons.prems by (auto simp: generator_step_def split: list.splits)
  next
    case (Task i)
    then show ?thesis using 1 Cons.prems by (simp add: task_step_def)
  next
    case Consumer
    then show ?thesis using 1 Cons.prems by (simp add: consumer_step_def)
  qed
  then show ?case using Cons.IH 2 by blast
qed

lemma keep_degree_below_two_never_returns:
  "degree \<le> 1 \<Longrightarrow> keep sched degree mv generate_op predicate_op = None"
proof -
  assume d: "degree \<le> 1"
  let ?s = "keep_init degree generate_op"
  have i: "tasks ?s = []" "filtered_queue ?s = []" "\<not> finished (consumer ?s)"
    using d by (simp_all add: keep_init_def)
  show ?thesis
  proof (cases "run degree mv predicate_op sched ?s")
    case None
    then show ?thesis by (simp add: keep_def)
  next
    case (Some s')
    from run_without_tasks [OF i Some] show ?thesis
      using Some by (simp add: keep_def keep_returned_def)
  qed
qed

subsection \<open>Holes\<close>

text \<open>
  A task pushes a value that fails the predicate as a hole with the tag of the value, and
  a hole that arrives at the expected tag while the buffer is empty is skipped without a
  call of the consumer callback.
\<close>

lemma task_pushes_hole:
  assumes "i < length (tasks s)" and "tasks s ! i = Holding (Some v, t)"
    and "\<not> predicate_op v"
  shows "map_option pushed (task_step predicate_op i s) = Some (pushed s @ [(None, t)])"
  using assms by (simp add: task_step_def push_filtered_def)

lemma hole_at_expected_tag_skipped:
  assumes "done_threads c \<noteq> degree - 1" and "item_buffer c = []" and "t \<noteq> - 1"
    and "order c = t"
  shows "consumer_iteration degree mv c (None, t) = c\<lparr>order := t + 1\<rparr>"
  using assms
  by (simp add: consumer_iteration_def search_buffer_def remove_if_def)

subsection \<open>The farm stage of the OpenMP pipeline\<close>

text \<open>
  Two tasks on the input queue of an empty stream: both pop the end-of-stream item and push
  it back, both increment the counter, and only then both read it: each finds it equal to
  the concurrency degree and pushes an end-of-stream item onto the output queue.
\<close>

lemma farm_two_sentinels:
  "farm_run 2 (\<lambda>v :: int. 2 * v) [0, 0, 1, 1, 0, 1, 0, 1] (farm_init 2 [(None, 0)]) =
     Some \<lparr>farm_input = [(None, 0)], farm_output = [(None, - 1), (None, - 1)],
           farm_done_threads = 2, farm_tasks = [Farm_Exited, Farm_Exited]\<rparr>"
  by code_simp


end
